theory Spec2Isabelle
  imports Complex_Main
begin

section \<open>Values and external collaborators\<close>

text \<open>
  Metric and parameter values are opaque to \<^verbatim>\<open>experiment.py\<close>: the only test the
  source ever performs on one is \<^verbatim>\<open>is not None\<close>.  A stream (\<^verbatim>\<open>sys.stdout\<close>,
  an \<^verbatim>\<open>IOBuffer\<close>) is identified by its object identity; a reading of
  \<^verbatim>\<open>datetime.now()\<close> is a point on the (naive, local) wall clock.
\<close>

datatype pyval = PyNone | PyFloat real

type_synonym stream = nat

type_synonym time = int

text \<open>What the logger has been asked to write (\<^verbatim>\<open>info\<close>, \<^verbatim>\<open>warn\<close>), in order.\<close>

datatype log_entry = Info string | Warn string

fun is_warn :: "log_entry \<Rightarrow> bool" where
  "is_warn (Warn m) = True"
| "is_warn (Info m) = False"

text \<open>What the delivery client (\<^verbatim>\<open>HDClient\<close>) has been asked to send, in order.\<close>

datatype client_call =
    Metric string pyval bool
  | Param string pyval bool
  | Iter int bool

text \<open>
  Exceptions that can reach the caller of an \<^verbatim>\<open>Experiment\<close> operation: one raised
  by the delivery client, or one raised while importing Keras that is not an
  \<^verbatim>\<open>ImportError\<close>.
\<close>

datatype py_exn = Client_raised client_call | Import_raised

text \<open>The outcome of \<^verbatim>\<open>from keras.callbacks import Callback\<close> in the running process.\<close>

datatype import_result = Imported | ImportError | Other_error

section \<open>ExperimentRunner\<close>

record ExperimentRunner =
  r_done :: bool
  exit_cleanly :: bool
  start_time :: "time option"
  end_time :: "time option"

definition ExperimentRunner_init :: "bool \<Rightarrow> bool \<Rightarrow> ExperimentRunner" where
  "ExperimentRunner_init d ec =
     \<lparr>r_done = d, exit_cleanly = ec, start_time = None, end_time = None\<rparr>"

definition is_done :: "ExperimentRunner \<Rightarrow> bool \<times> bool" where
  "is_done r = (exit_cleanly r, r_done r)"

definition get_return_val :: "ExperimentRunner \<Rightarrow> pyval" where
  "get_return_val r = PyNone"

definition get_exception :: "ExperimentRunner \<Rightarrow> pyval" where
  "get_exception r = PyNone"

definition should_run_as_thread :: "ExperimentRunner \<Rightarrow> bool" where
  "should_run_as_thread r = False"

definition get_start_and_end_time :: "ExperimentRunner \<Rightarrow> time option \<times> time option" where
  "get_start_and_end_time r = (start_time r, end_time r)"

definition set_start_time :: "time \<Rightarrow> ExperimentRunner \<Rightarrow> ExperimentRunner" where
  "set_start_time t r = r\<lparr>start_time := Some t\<rparr>"

definition set_end_time :: "time \<Rightarrow> ExperimentRunner \<Rightarrow> ExperimentRunner" where
  "set_end_time t r = r\<lparr>end_time := Some t\<rparr>"

section \<open>The Experiment and the two threads that work on it\<close>

text \<open>
  \<^verbatim>\<open>Experiment.end\<close> is the one operation that interleaves with the worker thread,
  so it is modelled statement by statement; \<open>end_pc\<close> names the statement that the
  caller executes next (lines 152 to 162 of \<^verbatim>\<open>experiment.py\<close>).
\<close>

datatype end_pc =
    E_check          \<comment> \<open>\<^verbatim>\<open>if self._ended: return\<close>\<close>
  | E_set_ended      \<comment> \<open>\<^verbatim>\<open>self._ended = True\<close>\<close>
  | E_acquire        \<comment> \<open>\<^verbatim>\<open>with self.lock:\<close> (entry)\<close>
  | E_restore        \<comment> \<open>\<^verbatim>\<open>sys.stdout, sys.stderr = self._old_out, self._old_err\<close>\<close>
  | E_exit_cleanly   \<comment> \<open>\<^verbatim>\<open>self._experiment_runner.exit_cleanly = True\<close>\<close>
  | E_done           \<comment> \<open>\<^verbatim>\<open>self._experiment_runner.done = True\<close>\<close>
  | E_release        \<comment> \<open>\<^verbatim>\<open>with self.lock:\<close> (exit)\<close>
  | E_get            \<comment> \<open>\<^verbatim>\<open>self.done_chan.get(block=True, timeout=None)\<close>\<close>

datatype caller_pc = Idle | In_end end_pc

text \<open>
  The worker thread runs the closure \<^verbatim>\<open>run\<close> of \<^verbatim>\<open>Experiment.__init__\<close>
  (lines 123 to 127); \<open>worker_pc\<close> names the statement it executes next.
\<close>

datatype worker_pc =
    W_set_start      \<comment> \<open>\<^verbatim>\<open>self._experiment_runner._set_start_time(datetime.now())\<close>\<close>
  | W_run            \<comment> \<open>\<^verbatim>\<open>self._hd.run()\<close>\<close>
  | W_set_end        \<comment> \<open>\<^verbatim>\<open>self._experiment_runner._set_end_time(datetime.now())\<close>\<close>
  | W_put            \<comment> \<open>\<^verbatim>\<open>self.done_chan.put(True)\<close>\<close>
  | W_finished       \<comment> \<open>\<^verbatim>\<open>run\<close> has returned\<close>
  | W_died           \<comment> \<open>\<^verbatim>\<open>self._hd.run()\<close> raised; the thread is gone\<close>

text \<open>An entry of \<^verbatim>\<open>Callbacks._callbacks\<close>: \<^verbatim>\<open>False\<close> or the adapter instance.\<close>

datatype cb_entry = CbFalse | KerasCallback

definition KERAS :: string where
  "KERAS = ''keras''"

text \<open>
  One record holds the process globals (\<^verbatim>\<open>sys.stdout\<close>, \<^verbatim>\<open>sys.stderr\<close>), the
  fields of the \<^verbatim>\<open>Experiment\<close> instance and of the objects it owns, what the
  logger and the delivery client have received so far, and the program counters of
  the two threads.  Three counters are bookkeeping only and are never read by an
  operation: \<open>import_attempts\<close> counts executions of the \<^verbatim>\<open>import\<close> statement,
  \<open>puts\<close> and \<open>gets\<close> count completed \<^verbatim>\<open>done_chan.put\<close> and
  \<^verbatim>\<open>done_chan.get\<close> calls.
\<close>

record config =
  sys_stdout :: stream
  sys_stderr :: stream
  model_name :: string
  old_out :: stream
  old_err :: stream
  out_bufs :: "stream \<times> stream"
  ended :: bool
  lock :: bool
  runner :: ExperimentRunner
  done_chan :: "bool list"
  callbacks :: "string \<rightharpoonup> cb_entry"
  logger :: "log_entry list"
  hd_client :: "client_call list"
  caller :: caller_pc
  worker :: worker_pc
  import_attempts :: nat
  puts :: nat
  gets :: nat

text \<open>
  \<^verbatim>\<open>Experiment.__init__(model_name, api_key_getter, capture_io)\<close>, run in a process
  whose streams are \<open>out0\<close> and \<open>err0\<close>; \<open>b0\<close> and \<open>b1\<close> are the identities of the
  two \<^verbatim>\<open>IOBuffer\<close> objects it allocates.  When it returns the worker thread has been
  started and the caller is outside every operation.
\<close>

definition Experiment_init :: "string \<Rightarrow> bool \<Rightarrow> stream \<Rightarrow> stream \<Rightarrow> stream \<Rightarrow> stream \<Rightarrow> config" where
  "Experiment_init name capture_io out0 err0 b0 b1 =
     \<lparr>sys_stdout = (if capture_io then b0 else out0),
      sys_stderr = (if capture_io then b1 else err0),
      model_name = name,
      old_out = out0,
      old_err = err0,
      out_bufs = (b0, b1),
      ended = False,
      lock = False,
      runner = ExperimentRunner_init False True,
      done_chan = [],
      callbacks = Map.empty,
      logger = [],
      hd_client = [],
      caller = Idle,
      worker = W_set_start,
      import_attempts = 0,
      puts = 0,
      gets = 0\<rparr>"

subsection \<open>metric, param, iter, log\<close>

text \<open>
  The delivery client is outside \<^verbatim>\<open>experiment.py\<close>; it is a parameter \<open>rej\<close> that
  says which calls it answers with an exception.  A call it accepts is recorded.
\<close>

definition forward :: "(client_call \<Rightarrow> bool) \<Rightarrow> client_call \<Rightarrow> config \<Rightarrow> (py_exn + pyval) \<times> config" where
  "forward rej call c =
     (if rej call then (Inl (Client_raised call), c)
      else (Inr PyNone, c\<lparr>hd_client := hd_client c @ [call]\<rparr>))"

definition warn :: "string \<Rightarrow> config \<Rightarrow> config" where
  "warn msg c = c\<lparr>logger := logger c @ [Warn msg]\<rparr>"

definition info :: "string \<Rightarrow> config \<Rightarrow> config" where
  "info msg c = c\<lparr>logger := logger c @ [Info msg]\<rparr>"

definition metric :: "(client_call \<Rightarrow> bool) \<Rightarrow> string \<Rightarrow> pyval \<Rightarrow> bool \<Rightarrow> config \<Rightarrow> (py_exn + pyval) \<times> config" where
  "metric rej name val lg c =
     (if ended c
      then (Inr PyNone,
            warn (''Cannot send metric '' @ name @ '', experiment ended. Please start a new experiment.'') c)
      else forward rej (Metric name val lg) c)"

definition param :: "(client_call \<Rightarrow> bool) \<Rightarrow> string \<Rightarrow> pyval \<Rightarrow> bool \<Rightarrow> config \<Rightarrow> (py_exn + pyval) \<times> config" where
  "param rej name val lg c =
     (if ended c
      then (Inr PyNone,
            warn (''Cannot send param '' @ name @ '', experiment ended. Please start a new experiment.'') c)
      else forward rej (Param name val lg) c)"

definition iter :: "(client_call \<Rightarrow> bool) \<Rightarrow> int \<Rightarrow> bool \<Rightarrow> config \<Rightarrow> (py_exn + pyval) \<times> config" where
  "iter rej n lg c =
     (if ended c
      then (Inr PyNone,
            warn ''Cannot iterate, experiment ended. Please start a new experiment.'' c)
      else forward rej (Iter n lg) c)"

definition log_exp :: "string \<Rightarrow> config \<Rightarrow> (py_exn + pyval) \<times> config" where
  "log_exp msg c = (Inr PyNone, info msg c)"

subsection \<open>Callbacks.keras and the adapter's on\_epoch\_end\<close>

definition keras :: "import_result \<Rightarrow> config \<Rightarrow> (py_exn + cb_entry option) \<times> config" where
  "keras imp c =
     (let cb = callbacks c KERAS in
      if cb = Some CbFalse then (Inr None, c)
      else if cb = None then
        (let c1 = c\<lparr>import_attempts := import_attempts c + 1\<rparr> in
         case imp of
           Imported \<Rightarrow>
             (Inr (Some KerasCallback), c1\<lparr>callbacks := (callbacks c1)(KERAS \<mapsto> KerasCallback)\<rparr>)
         | ImportError \<Rightarrow>
             (Inr None, c1\<lparr>callbacks := (callbacks c1)(KERAS \<mapsto> CbFalse)\<rparr>)
         | Other_error \<Rightarrow> (Inl Import_raised, c1))
      else (Inr cb, c))"

text \<open>Reading the accessor \<open>n\<close> times in a row: the results, in order, and the final configuration.\<close>

fun keras_times :: "nat \<Rightarrow> import_result \<Rightarrow> config \<Rightarrow> (py_exn + cb_entry option) list \<times> config" where
  "keras_times 0 imp c = ([], c)"
| "keras_times (Suc n) imp c =
     (case keras imp c of (r, c1) \<Rightarrow>
        (case keras_times n imp c1 of (rs, c2) \<Rightarrow> (r # rs, c2)))"

text \<open>
  The payload \<^verbatim>\<open>logs\<close> is \<^verbatim>\<open>None\<close> or a dictionary, here an association list;
  \<^verbatim>\<open>logs.get(k)\<close> is \<^verbatim>\<open>None\<close> for a missing key.
\<close>

definition dict_get :: "(string \<times> pyval) list \<Rightarrow> string \<Rightarrow> pyval" where
  "dict_get d k = (case map_of d k of None \<Rightarrow> PyNone | Some v \<Rightarrow> v)"

definition on_epoch_end :: "(client_call \<Rightarrow> bool) \<Rightarrow> int \<Rightarrow> (string \<times> pyval) list option \<Rightarrow> config \<Rightarrow> (py_exn + pyval) \<times> config" where
  "on_epoch_end rej epoch logs c =
     (let logs1 = (case logs of None \<Rightarrow> [] | Some d \<Rightarrow> if d = [] then [] else d);
          val_acc = dict_get logs1 ''val_accuracy'';
          val_loss = dict_get logs1 ''val_loss'';
          r1 = (if val_acc \<noteq> PyNone then metric rej ''val_accuracy'' val_acc True c
                else (Inr PyNone, c))
      in case fst r1 of
           Inl e \<Rightarrow> r1
         | Inr v \<Rightarrow>
             (if val_loss \<noteq> PyNone
              then (case metric rej ''val_loss'' val_loss True (snd r1) of
                      (Inl e, c2) \<Rightarrow> (Inl e, c2)
                    | (Inr w, c2) \<Rightarrow> (Inr PyNone, c2))
              else (Inr PyNone, snd r1)))"

subsection \<open>end, one statement at a time\<close>

text \<open>
  \<open>end_step pc c\<close> executes the statement at \<open>pc\<close>.  The result is the caller's
  next program counter (\<open>Idle\<close> once \<^verbatim>\<open>end\<close> has returned) and the new
  configuration, or \<open>None\<close> when the statement cannot proceed in \<open>c\<close>: acquiring
  a lock that is held, or \<^verbatim>\<open>get\<close> (blocking, no timeout) on an empty queue.
\<close>

fun end_step :: "end_pc \<Rightarrow> config \<Rightarrow> (caller_pc \<times> config) option" where
  "end_step E_check c = Some (if ended c then Idle else In_end E_set_ended, c)"
| "end_step E_set_ended c = Some (In_end E_acquire, c\<lparr>ended := True\<rparr>)"
| "end_step E_acquire c =
     (if lock c then None else Some (In_end E_restore, c\<lparr>lock := True\<rparr>))"
| "end_step E_restore c =
     Some (In_end E_exit_cleanly, c\<lparr>sys_stdout := old_out c, sys_stderr := old_err c\<rparr>)"
| "end_step E_exit_cleanly c =
     Some (In_end E_done, c\<lparr>runner := (runner c)\<lparr>exit_cleanly := True\<rparr>\<rparr>)"
| "end_step E_done c =
     Some (In_end E_release, c\<lparr>runner := (runner c)\<lparr>r_done := True\<rparr>\<rparr>)"
| "end_step E_release c = Some (In_end E_get, c\<lparr>lock := False\<rparr>)"
| "end_step E_get c =
     (case done_chan c of
        [] \<Rightarrow> None
      | tok # rest \<Rightarrow> Some (Idle, c\<lparr>done_chan := rest, gets := gets c + 1\<rparr>))"

subsection \<open>The worker thread\<close>

text \<open>
  The run loop \<^verbatim>\<open>HyperDash.run\<close> is outside \<^verbatim>\<open>experiment.py\<close>.  It is handed the
  buffers, the original streams, the logger and the runner, and neither the
  \<^verbatim>\<open>Experiment\<close> nor its queue.  From the worker's side it is a call that, at some
  point of the schedule, returns or raises, or does neither.  What it transmits and
  drains is not part of a configuration; it is taken to read the runner without
  writing to it, and to leave \<^verbatim>\<open>sys.stdout\<close> and \<^verbatim>\<open>sys.stderr\<close> alone.
\<close>

datatype action =
    Call_metric string pyval bool
  | Call_param string pyval bool
  | Call_iter int bool
  | Call_log string
  | Call_keras import_result
  | Call_on_epoch_end int "(string \<times> pyval) list option"
  | Call_end
  | End_step
  | Worker_set_start_time time
  | Run_returns
  | Run_raises
  | Worker_set_end_time time
  | Worker_put

text \<open>
  \<open>fire rej a c\<close> is the configuration after action \<open>a\<close>, or \<open>None\<close> when \<open>a\<close>
  cannot happen in \<open>c\<close>.  The caller is one thread: it starts an operation only
  when it is outside \<^verbatim>\<open>end\<close>.  An operation that raises leaves the caller free to
  go on with whatever the operation had done before.  The adapter exists only once
  the accessor has created it.  The time carried by the two timed worker actions
  is what \<^verbatim>\<open>datetime.now()\<close> returns at that moment.
\<close>

fun fire :: "(client_call \<Rightarrow> bool) \<Rightarrow> action \<Rightarrow> config \<Rightarrow> config option" where
  "fire rej (Call_metric name val lg) c =
     (if caller c = Idle then Some (snd (metric rej name val lg c)) else None)"
| "fire rej (Call_param name val lg) c =
     (if caller c = Idle then Some (snd (param rej name val lg c)) else None)"
| "fire rej (Call_iter n lg) c =
     (if caller c = Idle then Some (snd (iter rej n lg c)) else None)"
| "fire rej (Call_log msg) c =
     (if caller c = Idle then Some (snd (log_exp msg c)) else None)"
| "fire rej (Call_keras imp) c =
     (if caller c = Idle then Some (snd (keras imp c)) else None)"
| "fire rej (Call_on_epoch_end epoch logs) c =
     (if caller c = Idle \<and> callbacks c KERAS = Some KerasCallback
      then Some (snd (on_epoch_end rej epoch logs c)) else None)"
| "fire rej Call_end c =
     (if caller c = Idle then Some (c\<lparr>caller := In_end E_check\<rparr>) else None)"
| "fire rej End_step c =
     (case caller c of
        Idle \<Rightarrow> None
      | In_end pc \<Rightarrow>
          (case end_step pc c of
             None \<Rightarrow> None
           | Some (pc', c') \<Rightarrow> Some (c'\<lparr>caller := pc'\<rparr>)))"
| "fire rej (Worker_set_start_time now) c =
     (if worker c = W_set_start
      then Some (c\<lparr>runner := set_start_time now (runner c), worker := W_run\<rparr>)
      else None)"
| "fire rej Run_returns c =
     (if worker c = W_run then Some (c\<lparr>worker := W_set_end\<rparr>) else None)"
| "fire rej Run_raises c =
     (if worker c = W_run then Some (c\<lparr>worker := W_died\<rparr>) else None)"
| "fire rej (Worker_set_end_time now) c =
     (if worker c = W_set_end
      then Some (c\<lparr>runner := set_end_time now (runner c), worker := W_put\<rparr>)
      else None)"
| "fire rej Worker_put c =
     (if worker c = W_put
      then Some (c\<lparr>done_chan := done_chan c @ [True], puts := puts c + 1, worker := W_finished\<rparr>)
      else None)"

text \<open>A schedule is a list of actions, run from left to right.\<close>

fun exec :: "(client_call \<Rightarrow> bool) \<Rightarrow> action list \<Rightarrow> config \<Rightarrow> config option" where
  "exec rej [] c = Some c"
| "exec rej (a # as) c = (case fire rej a c of None \<Rightarrow> None | Some c' \<Rightarrow> exec rej as c')"

text \<open>The readings of \<^verbatim>\<open>datetime.now()\<close> that a schedule contains, in order.\<close>

fun readings :: "action list \<Rightarrow> time list" where
  "readings [] = []"
| "readings (Worker_set_start_time t # as) = t # readings as"
| "readings (Worker_set_end_time t # as) = t # readings as"
| "readings (a # as) = readings as"


section \<open>Frames and example runs\<close>

text \<open>
  The operations other than \<^verbatim>\<open>end\<close> touch at most the logger, the delivery
  client, the callback cache and the import counter; \<open>frame c c'\<close> says that \<open>c'\<close>
  agrees with \<open>c\<close> on everything else.
\<close>

definition frame :: "config \<Rightarrow> config \<Rightarrow> bool" where
  "frame c c' \<longleftrightarrow>
     sys_stdout c' = sys_stdout c \<and> sys_stderr c' = sys_stderr c \<and>
     model_name c' = model_name c \<and> old_out c' = old_out c \<and> old_err c' = old_err c \<and>
     out_bufs c' = out_bufs c \<and> ended c' = ended c \<and> lock c' = lock c \<and>
     runner c' = runner c \<and> done_chan c' = done_chan c \<and> caller c' = caller c \<and>
     worker c' = worker c \<and> puts c' = puts c \<and> gets c' = gets c"

definition accept_all :: "client_call \<Rightarrow> bool" where
  "accept_all call = False"

definition demo :: config where
  "demo = Experiment_init ''demo'' True 1 2 3 4"

definition demo_plain :: config where
  "demo_plain = Experiment_init ''demo'' False 1 2 3 4"

definition reject_all :: "client_call \<Rightarrow> bool" where
  "reject_all call = True"

text \<open>
  A complete run: the worker starts, the caller enters \<^verbatim>\<open>end\<close> and runs up to the
  blocking \<^verbatim>\<open>get\<close>, the run loop returns, the worker posts its token, \<^verbatim>\<open>end\<close>
  returns.
\<close>

definition full_run :: "action list" where
  "full_run =
     [Worker_set_start_time 10, Call_end, End_step, End_step, End_step, End_step,
      End_step, End_step, End_step, Run_returns, Worker_set_end_time 20, Worker_put,
      End_step]"

definition demo_ended :: config where
  "demo_ended =
     \<lparr>sys_stdout = 1, sys_stderr = 2, model_name = ''demo'', old_out = 1, old_err = 2,
      out_bufs = (3, 4), ended = True, lock = False,
      runner = \<lparr>r_done = True, exit_cleanly = True, start_time = Some 10, end_time = Some 20\<rparr>,
      done_chan = [], callbacks = Map.empty, logger = [], hd_client = [], caller = Idle,
      worker = W_finished, import_attempts = 0, puts = 1, gets = 1\<rparr>"

text \<open>A run in which the wall clock is set back while the run loop executes.\<close>

definition clock_set_back :: "action list" where
  "clock_set_back =
     [Worker_set_start_time 10, Run_returns, Worker_set_end_time 5, Worker_put]"

section \<open>Invariants of the two threads\<close>

text \<open>
  The program counters of \<^verbatim>\<open>end\<close> that lie after \<^verbatim>\<open>self._ended = True\<close>, and
  those that lie inside the \<^verbatim>\<open>with self.lock\<close> block.
\<close>

definition past_set_ended :: "caller_pc \<Rightarrow> bool" where
  "past_set_ended p \<longleftrightarrow>
     p = In_end E_acquire \<or> p = In_end E_restore \<or> p = In_end E_exit_cleanly \<or>
     p = In_end E_done \<or> p = In_end E_release \<or> p = In_end E_get"

definition holds_lock :: "caller_pc \<Rightarrow> bool" where
  "holds_lock p \<longleftrightarrow>
     p = In_end E_restore \<or> p = In_end E_exit_cleanly \<or> p = In_end E_done \<or>
     p = In_end E_release"

text \<open>
  The queue and the two threads: a token has been put exactly when the worker has
  finished, the queue holds the tokens put and not yet taken, and a token has been
  taken exactly when \<^verbatim>\<open>end\<close> has returned from its first invocation.
\<close>

definition chan_inv :: "config \<Rightarrow> bool" where
  "chan_inv c \<longleftrightarrow>
     puts c = (if worker c = W_finished then 1 else 0) \<and>
     length (done_chan c) + gets c = puts c \<and>
     gets c = (if ended c \<and> (caller c = Idle \<or> caller c = In_end E_check) then 1 else 0) \<and>
     (past_set_ended (caller c) \<longrightarrow> ended c)"

text \<open>
  The timestamps and the worker, seen from a point of a schedule whose remaining
  actions are \<open>rest\<close>: the end time is unset until the worker has written it, and a
  start time that waits for its end time is no later than any reading still to come.
\<close>

definition time_inv :: "config \<Rightarrow> action list \<Rightarrow> bool" where
  "time_inv c rest \<longleftrightarrow>
     (worker c = W_set_start \<longrightarrow> end_time (runner c) = None) \<and>
     (worker c = W_run \<or> worker c = W_set_end \<or> worker c = W_died \<longrightarrow>
        end_time (runner c) = None) \<and>
     (worker c = W_run \<or> worker c = W_set_end \<longrightarrow>
        (\<exists>a. start_time (runner c) = Some a \<and> (\<forall>t \<in> set (readings rest). a \<le> t))) \<and>
     (worker c = W_put \<or> worker c = W_finished \<longrightarrow>
        (\<exists>a b. start_time (runner c) = Some a \<and> end_time (runner c) = Some b \<and> a \<le> b))"

text \<open>
  The actions of a schedule that are steps of the worker thread, in order.  In a
  schedule that runs, they are an initial part of the worker's program
  (set the start time, run loop returns or raises, set the end time, put), in
  program order, and the timestamps of the runner are the readings they carry.
\<close>

fun is_worker_act :: "action \<Rightarrow> bool" where
  "is_worker_act (Worker_set_start_time t) = True"
| "is_worker_act Run_returns = True"
| "is_worker_act Run_raises = True"
| "is_worker_act (Worker_set_end_time t) = True"
| "is_worker_act Worker_put = True"
| "is_worker_act a = False"

definition worker_acts :: "action list \<Rightarrow> action list" where
  "worker_acts sched = filter is_worker_act sched"

definition worker_trace :: "action list \<Rightarrow> config \<Rightarrow> bool" where
  "worker_trace sched c \<longleftrightarrow>
     (case worker c of
        W_set_start \<Rightarrow>
          start_time (runner c) = None \<and> end_time (runner c) = None \<and> worker_acts sched = []
      | W_run \<Rightarrow>
          (\<exists>t. start_time (runner c) = Some t \<and> end_time (runner c) = None \<and>
               worker_acts sched = [Worker_set_start_time t])
      | W_set_end \<Rightarrow>
          (\<exists>t. start_time (runner c) = Some t \<and> end_time (runner c) = None \<and>
               worker_acts sched = [Worker_set_start_time t, Run_returns])
      | W_put \<Rightarrow>
          (\<exists>t u. start_time (runner c) = Some t \<and> end_time (runner c) = Some u \<and>
               worker_acts sched = [Worker_set_start_time t, Run_returns, Worker_set_end_time u])
      | W_finished \<Rightarrow>
          (\<exists>t u. start_time (runner c) = Some t \<and> end_time (runner c) = Some u \<and>
               worker_acts sched =
                 [Worker_set_start_time t, Run_returns, Worker_set_end_time u, Worker_put])
      | W_died \<Rightarrow>
          (\<exists>t. start_time (runner c) = Some t \<and> end_time (runner c) = None \<and>
               worker_acts sched = [Worker_set_start_time t, Run_raises]))"

text \<open>
  The schedule contains the worker's \<^verbatim>\<open>put\<close> and, after it, a step of \<^verbatim>\<open>end\<close>.
\<close>

definition got_after_put :: "action list \<Rightarrow> bool" where
  "got_after_put sched \<longleftrightarrow>
     (\<exists>pre post. sched = pre @ Worker_put # post \<and> End_step \<in> set post)"

section \<open>Schedules and invariants\<close>

lemma exec_append:
  "exec rej (xs @ ys) c = (case exec rej xs c of None \<Rightarrow> None | Some c' \<Rightarrow> exec rej ys c')"
  by (induction xs arbitrary: c) (auto split: option.splits)

lemma exec_invariant:
  assumes "P c0"
    and "\<And>a c c'. P c \<Longrightarrow> fire rej a c = Some c' \<Longrightarrow> P c'"
    and "exec rej sched c0 = Some c"
  shows "P c"
  using assms(3,1)
proof (induction sched arbitrary: c0)
  case Nil
  then show ?case by simp
next
  case (Cons a sched)
  then show ?case
    using assms(2) by (auto split: option.splits)
qed

lemma frame_refl: "frame c c"
  by (simp add: frame_def)

lemma frame_trans: "frame c c1 \<Longrightarrow> frame c1 c2 \<Longrightarrow> frame c c2"
  by (simp add: frame_def)

lemma frame_metric: "frame c (snd (metric rej name val lg c))"
  by (simp add: frame_def metric_def forward_def warn_def)

lemma frame_param: "frame c (snd (param rej name val lg c))"
  by (simp add: frame_def param_def forward_def warn_def)

lemma frame_iter: "frame c (snd (iter rej n lg c))"
  by (simp add: frame_def iter_def forward_def warn_def)

lemma frame_log_exp: "frame c (snd (log_exp msg c))"
  by (simp add: frame_def log_exp_def info_def)

lemma frame_keras: "frame c (snd (keras imp c))"
  by (cases imp) (simp_all add: frame_def keras_def Let_def)

lemma frame_on_epoch_end: "frame c (snd (on_epoch_end rej epoch logs c))"
proof -
  let ?c1 = "snd (metric rej ''val_accuracy'' (dict_get (case logs of None \<Rightarrow> [] | Some d \<Rightarrow> if d = [] then [] else d) ''val_accuracy'') True c)"
  have 1: "frame c ?c1"
    by (rule frame_metric)
  have 2: "\<And>v. frame c (snd (metric rej ''val_loss'' v True ?c1))"
    by (rule frame_trans[OF 1 frame_metric])
  have 3: "\<And>v. frame c (snd (metric rej ''val_loss'' v True c))"
    by (rule frame_metric)
  show ?thesis
    unfolding on_epoch_end_def Let_def
    using 1 2 3 by (auto split: sum.splits prod.splits simp: frame_refl dest: sndI)
qed


lemma fire_cases [consumes 1, case_names api call_end end_step set_start run_returns run_raises set_end put]:
  assumes "fire rej a c = Some c'"
  obtains
    "caller c = Idle" and "frame c c'"
  | "a = Call_end" and "caller c = Idle" and "c' = c\<lparr>caller := In_end E_check\<rparr>"
  | pc pc' c1 where "a = End_step" and "caller c = In_end pc"
      and "end_step pc c = Some (pc', c1)" and "c' = c1\<lparr>caller := pc'\<rparr>"
  | now where "a = Worker_set_start_time now" and "worker c = W_set_start"
      and "c' = c\<lparr>runner := set_start_time now (runner c), worker := W_run\<rparr>"
  | "a = Run_returns" and "worker c = W_run" and "c' = c\<lparr>worker := W_set_end\<rparr>"
  | "a = Run_raises" and "worker c = W_run" and "c' = c\<lparr>worker := W_died\<rparr>"
  | now where "a = Worker_set_end_time now" and "worker c = W_set_end"
      and "c' = c\<lparr>runner := set_end_time now (runner c), worker := W_put\<rparr>"
  | "a = Worker_put" and "worker c = W_put"
      and "c' = c\<lparr>done_chan := done_chan c @ [True], puts := puts c + 1, worker := W_finished\<rparr>"
proof (cases a)
  case (Call_metric name val lg)
  with assms that(1) show ?thesis
    by (auto split: if_splits intro: frame_metric)
next
  case (Call_param name val lg)
  with assms that(1) show ?thesis
    by (auto split: if_splits intro: frame_param)
next
  case (Call_iter n lg)
  with assms that(1) show ?thesis
    by (auto split: if_splits intro: frame_iter)
next
  case (Call_log msg)
  with assms that(1) show ?thesis
    by (auto split: if_splits intro: frame_log_exp)
next
  case (Call_keras imp)
  with assms that(1) show ?thesis
    by (auto split: if_splits intro: frame_keras)
next
  case (Call_on_epoch_end epoch logs)
  with assms that(1) show ?thesis
    by (auto split: if_splits intro: frame_on_epoch_end)
next
  case Call_end
  with assms that(2) show ?thesis
    by (auto split: if_splits)
next
  case End_step
  with assms that(3) show ?thesis
    by (auto split: caller_pc.splits option.splits)
next
  case (Worker_set_start_time now)
  with assms that(4) show ?thesis
    by (auto split: if_splits)
next
  case Run_returns
  with assms that(5) show ?thesis
    by (auto split: if_splits)
next
  case Run_raises
  with assms that(6) show ?thesis
    by (auto split: if_splits)
next
  case (Worker_set_end_time now)
  with assms that(7) show ?thesis
    by (auto split: if_splits)
next
  case Worker_put
  with assms that(8) show ?thesis
    by (auto split: if_splits)
qed

text \<open>What one statement of \<^verbatim>\<open>end\<close> leaves alone.\<close>

lemma end_step_frame:
  assumes "end_step pc c = Some (pc', c1)"
  shows "worker c1 = worker c" and "puts c1 = puts c" and "old_out c1 = old_out c"
    and "old_err c1 = old_err c" and "start_time (runner c1) = start_time (runner c)"
    and "end_time (runner c1) = end_time (runner c)"
  using assms by (cases pc; auto split: if_splits list.splits)+

lemmas init_defs = Experiment_init_def ExperimentRunner_init_def


lemma full_run_demo: "exec rej full_run demo = Some demo_ended"
  by (simp add: full_run_def demo_def demo_ended_def init_defs set_start_time_def
      set_end_time_def)

section \<open>Operations after end\<close>

text \<open>
  Claim C3.  Once the \<^verbatim>\<open>_ended\<close> flag is set, \<^verbatim>\<open>metric\<close>, \<^verbatim>\<open>param\<close> and
  \<^verbatim>\<open>iter\<close> return normally (with \<^verbatim>\<open>None\<close>) whatever the delivery client would
  have done with the call, and the configuration they leave differs from the one
  they found in exactly one respect: one warning has been appended to what the
  logger received.  In particular nothing is forwarded to the delivery client.
\<close>

theorem post_end_calls_warn_and_return:
  assumes "ended c"
  shows "metric rej name val lg c =
           (Inr PyNone, c\<lparr>logger := logger c @
              [Warn (''Cannot send metric '' @ name @ '', experiment ended. Please start a new experiment.'')]\<rparr>)
       \<and> param rej name val lg c =
           (Inr PyNone, c\<lparr>logger := logger c @
              [Warn (''Cannot send param '' @ name @ '', experiment ended. Please start a new experiment.'')]\<rparr>)
       \<and> iter rej n lg c =
           (Inr PyNone, c\<lparr>logger := logger c @
              [Warn ''Cannot iterate, experiment ended. Please start a new experiment.'']\<rparr>)"
  using assms by (simp add: metric_def param_def iter_def warn_def)

theorem post_end_calls_warn_and_return_witness:
  "ended demo_ended
   \<and> metric reject_all ''y'' (PyFloat 2) True demo_ended =
       (Inr PyNone, demo_ended\<lparr>logger :=
          [Warn ''Cannot send metric y, experiment ended. Please start a new experiment.'']\<rparr>)
   \<and> param reject_all ''y'' (PyFloat 2) True demo_ended =
       (Inr PyNone, demo_ended\<lparr>logger :=
          [Warn ''Cannot send param y, experiment ended. Please start a new experiment.'']\<rparr>)
   \<and> iter reject_all 7 True demo_ended =
       (Inr PyNone, demo_ended\<lparr>logger :=
          [Warn ''Cannot iterate, experiment ended. Please start a new experiment.'']\<rparr>)"
proof -
  have h: "ended demo_ended"
    by (simp add: demo_ended_def)
  have l: "logger demo_ended = []"
    by (simp add: demo_ended_def)
  from post_end_calls_warn_and_return[OF h, of reject_all "''y''" "PyFloat 2" True 7] h l
  show ?thesis
    by simp
qed

text \<open>
  Claim C9.  \<^verbatim>\<open>log\<close> never looks at the \<^verbatim>\<open>_ended\<close> flag: in every
  configuration it returns normally and appends the message to what the logger
  received as an \<^verbatim>\<open>info\<close> entry, the warnings the logger received stay as they
  were, and this holds in particular when the flag is set.
\<close>

theorem log_ignores_ended:
  "log_exp msg c = (Inr PyNone, c\<lparr>logger := logger c @ [Info msg]\<rparr>)
   \<and> filter is_warn (logger (snd (log_exp msg c))) = filter is_warn (logger c)
   \<and> log_exp msg (c\<lparr>ended := True\<rparr>) =
       (Inr PyNone, c\<lparr>ended := True, logger := logger c @ [Info msg]\<rparr>)"
  by (simp add: log_exp_def info_def)

section \<open>The callback registry\<close>

lemma keras_cached_unavailable:
  "callbacks c KERAS = Some CbFalse \<Longrightarrow> keras_times n imp c = (replicate n (Inr None), c)"
  by (induction n) (simp_all add: keras_def)

text \<open>
  Claim C5.  Take an \<^verbatim>\<open>Experiment\<close> whose cache has no entry for Keras yet, in a
  process where importing Keras raises \<^verbatim>\<open>ImportError\<close>.  Reading the accessor
  \<open>n + 1\<close> times executes the import statement exactly once, stores \<^verbatim>\<open>False\<close>
  in the cache, and every one of the reads returns \<^verbatim>\<open>None\<close> without raising.
\<close>

theorem keras_unavailable_loaded_once:
  assumes "callbacks c KERAS = None"
  shows "keras_times (Suc n) ImportError c =
           (replicate (Suc n) (Inr None),
            c\<lparr>import_attempts := import_attempts c + 1,
              callbacks := (callbacks c)(KERAS \<mapsto> CbFalse)\<rparr>)"
proof -
  let ?c1 = "c\<lparr>import_attempts := import_attempts c + 1,
               callbacks := (callbacks c)(KERAS \<mapsto> CbFalse)\<rparr>"
  have first: "keras ImportError c = (Inr None, ?c1)"
    using assms by (simp add: keras_def)
  have "callbacks ?c1 KERAS = Some CbFalse"
    by simp
  then have "keras_times n ImportError ?c1 = (replicate n (Inr None), ?c1)"
    by (rule keras_cached_unavailable)
  with first show ?thesis
    by simp
qed

theorem keras_unavailable_loaded_once_witness:
  "callbacks demo KERAS = None
   \<and> keras_times 3 ImportError demo =
       ([Inr None, Inr None, Inr None],
        demo\<lparr>import_attempts := 1, callbacks := [KERAS \<mapsto> CbFalse]\<rparr>)"
proof -
  have h: "callbacks demo KERAS = None"
    by (simp add: demo_def init_defs)
  have "import_attempts demo = 0" and "callbacks demo = Map.empty"
    by (simp_all add: demo_def init_defs)
  with keras_unavailable_loaded_once[OF h, of 2] h show ?thesis
    by (simp add: numeral_3_eq_3)
qed

text \<open>
  Claim C6.  When the payload of \<^verbatim>\<open>on_epoch_end\<close> holds a number under
  \<^verbatim>\<open>val_accuracy\<close> and has no entry \<^verbatim>\<open>val_loss\<close>, the event does exactly what
  the single call \<^verbatim>\<open>metric("val_accuracy", a)\<close> does; on a running experiment
  whose delivery client accepts the call, the client receives that one report and
  nothing for the loss.
\<close>

theorem on_epoch_end_accuracy_only:
  assumes "map_of logs ''val_accuracy'' = Some (PyFloat a)"
    and "map_of logs ''val_loss'' = None"
  shows "on_epoch_end rej epoch (Some logs) c = metric rej ''val_accuracy'' (PyFloat a) True c
       \<and> (\<not> ended c \<and> \<not> rej (Metric ''val_accuracy'' (PyFloat a) True) \<longrightarrow>
            hd_client (snd (on_epoch_end rej epoch (Some logs) c)) =
              hd_client c @ [Metric ''val_accuracy'' (PyFloat a) True])"
proof -
  have acc: "dict_get logs ''val_accuracy'' = PyFloat a"
    and loss: "dict_get logs ''val_loss'' = PyNone"
    using assms by (simp_all add: dict_get_def)
  have ne: "logs \<noteq> []"
    using assms(1) by auto
  have ret: "fst (metric rej ''val_accuracy'' (PyFloat a) True c) = Inr v
      \<Longrightarrow> v = PyNone" for v
    by (auto simp: metric_def forward_def split: if_splits)
  have 1: "on_epoch_end rej epoch (Some logs) c = metric rej ''val_accuracy'' (PyFloat a) True c"
    unfolding on_epoch_end_def Let_def
    using acc loss ne ret
    by (cases "metric rej ''val_accuracy'' (PyFloat a) True c") (auto split: sum.splits)
  show ?thesis
    unfolding 1 by (simp add: metric_def forward_def)
qed

theorem on_epoch_end_accuracy_only_witness:
  "map_of [(''val_accuracy'', PyFloat (9 / 10))] ''val_accuracy'' = Some (PyFloat (9 / 10))
   \<and> map_of [(''val_accuracy'', PyFloat (9 / 10))] ''val_loss'' = None
   \<and> \<not> ended demo \<and> \<not> accept_all (Metric ''val_accuracy'' (PyFloat (9 / 10)) True)
   \<and> hd_client (snd (on_epoch_end accept_all 1 (Some [(''val_accuracy'', PyFloat (9 / 10))]) demo)) =
       [Metric ''val_accuracy'' (PyFloat (9 / 10)) True]"
proof -
  have h1: "map_of [(''val_accuracy'', PyFloat (9 / 10))] ''val_accuracy'' = Some (PyFloat (9 / 10))"
    by simp
  have h2: "map_of [(''val_accuracy'', PyFloat (9 / 10))] ''val_loss'' = None"
    by simp
  have h3: "\<not> ended demo" "hd_client demo = []"
    by (simp_all add: demo_def init_defs)
  have h4: "\<not> accept_all (Metric ''val_accuracy'' (PyFloat (9 / 10)) True)"
    by (simp add: accept_all_def)
  have "hd_client (snd (on_epoch_end accept_all 1 (Some [(''val_accuracy'', PyFloat (9 / 10))]) demo)) =
      hd_client demo @ [Metric ''val_accuracy'' (PyFloat (9 / 10)) True]"
    using on_epoch_end_accuracy_only[OF h1 h2, of accept_all 1 demo] h3 h4 by blast
  with h1 h2 h3 h4 show ?thesis
    by simp
qed

lemma full_run_demo_plain: "exec rej full_run demo_plain = Some demo_ended"
  by (simp add: full_run_def demo_plain_def demo_ended_def init_defs set_start_time_def
      set_end_time_def)

section \<open>Termination\<close>

lemma chan_inv_init: "chan_inv (Experiment_init name capture_io out0 err0 b0 b1)"
  by (simp add: chan_inv_def init_defs past_set_ended_def)

lemma chan_inv_fire:
  assumes "chan_inv c" and "fire rej a c = Some c'"
  shows "chan_inv c'"
  using assms(2)
proof (cases rule: fire_cases)
  case api
  with assms(1) show ?thesis by (simp add: chan_inv_def frame_def)
next
  case call_end
  with assms(1) show ?thesis by (simp add: chan_inv_def past_set_ended_def)
next
  case (end_step pc pc' c1)
  with assms(1) show ?thesis
    by (cases pc) (auto simp: chan_inv_def past_set_ended_def split: if_splits list.splits)
next
  case (set_start now)
  with assms(1) show ?thesis by (auto simp: chan_inv_def)
next
  case run_returns
  with assms(1) show ?thesis by (auto simp: chan_inv_def)
next
  case run_raises
  with assms(1) show ?thesis by (auto simp: chan_inv_def)
next
  case (set_end now)
  with assms(1) show ?thesis by (auto simp: chan_inv_def)
next
  case put
  with assms(1) show ?thesis by (auto simp: chan_inv_def)
qed

lemma chan_inv_reachable:
  "exec rej sched (Experiment_init name capture_io out0 err0 b0 b1) = Some c \<Longrightarrow> chan_inv c"
  by (rule exec_invariant[where P = chan_inv, OF chan_inv_init chan_inv_fire])

lemma worker_acts_snoc:
  "worker_acts (sched @ [a]) = (if is_worker_act a then worker_acts sched @ [a] else worker_acts sched)"
  by (simp add: worker_acts_def)

lemma worker_trace_same:
  assumes "worker_trace sched c" and "\<not> is_worker_act a" and "worker c' = worker c"
    and "start_time (runner c') = start_time (runner c)"
    and "end_time (runner c') = end_time (runner c)"
  shows "worker_trace (sched @ [a]) c'"
  using assms by (cases "worker c") (simp_all add: worker_trace_def worker_acts_snoc)

lemma worker_trace_fire:
  assumes "worker_trace sched c" and "fire rej a c = Some c'"
  shows "worker_trace (sched @ [a]) c'"
proof (cases a)
  case (Call_metric name val lg)
  with assms(2) have "frame c c'"
    by (auto split: if_splits intro: frame_metric)
  with Call_metric show ?thesis
    by (intro worker_trace_same[OF assms(1)]) (simp_all add: frame_def)
next
  case (Call_param name val lg)
  with assms(2) have "frame c c'"
    by (auto split: if_splits intro: frame_param)
  with Call_param show ?thesis
    by (intro worker_trace_same[OF assms(1)]) (simp_all add: frame_def)
next
  case (Call_iter n lg)
  with assms(2) have "frame c c'"
    by (auto split: if_splits intro: frame_iter)
  with Call_iter show ?thesis
    by (intro worker_trace_same[OF assms(1)]) (simp_all add: frame_def)
next
  case (Call_log msg)
  with assms(2) have "frame c c'"
    by (auto split: if_splits intro: frame_log_exp)
  with Call_log show ?thesis
    by (intro worker_trace_same[OF assms(1)]) (simp_all add: frame_def)
next
  case (Call_keras imp)
  with assms(2) have "frame c c'"
    by (auto split: if_splits intro: frame_keras)
  with Call_keras show ?thesis
    by (intro worker_trace_same[OF assms(1)]) (simp_all add: frame_def)
next
  case (Call_on_epoch_end epoch logs)
  with assms(2) have "frame c c'"
    by (auto split: if_splits intro: frame_on_epoch_end)
  with Call_on_epoch_end show ?thesis
    by (intro worker_trace_same[OF assms(1)]) (simp_all add: frame_def)
next
  case Call_end
  with assms(2) show ?thesis
    by (intro worker_trace_same[OF assms(1)]) (auto split: if_splits)
next
  case End_step
  with assms(2) obtain pc pc' c1 where "end_step pc c = Some (pc', c1)" and "c' = c1\<lparr>caller := pc'\<rparr>"
    by (auto split: caller_pc.splits option.splits)
  with End_step show ?thesis
    by (intro worker_trace_same[OF assms(1)]) (simp_all add: end_step_frame)
next
  case (Worker_set_start_time now)
  with assms show ?thesis
    by (cases "worker c") (auto simp: worker_trace_def worker_acts_snoc set_start_time_def)
next
  case Run_returns
  with assms show ?thesis
    by (cases "worker c") (auto simp: worker_trace_def worker_acts_snoc)
next
  case Run_raises
  with assms show ?thesis
    by (cases "worker c") (auto simp: worker_trace_def worker_acts_snoc)
next
  case (Worker_set_end_time now)
  with assms show ?thesis
    by (cases "worker c") (auto simp: worker_trace_def worker_acts_snoc set_end_time_def)
next
  case Worker_put
  with assms show ?thesis
    by (cases "worker c") (auto simp: worker_trace_def worker_acts_snoc)
qed

lemma exec_snoc:
  "exec rej (sched @ [a]) c0 = Some c' \<longleftrightarrow>
     (\<exists>c. exec rej sched c0 = Some c \<and> fire rej a c = Some c')"
  by (auto simp: exec_append split: option.splits)

lemma worker_trace_reachable:
  "exec rej sched (Experiment_init name capture_io out0 err0 b0 b1) = Some c
     \<Longrightarrow> worker_trace sched c"
proof (induction sched arbitrary: c rule: rev_induct)
  case Nil
  then show ?case
    by (auto simp: worker_trace_def worker_acts_def init_defs)
next
  case (snoc a sched)
  from snoc.prems obtain c1
    where e: "exec rej sched (Experiment_init name capture_io out0 err0 b0 b1) = Some c1"
      and f: "fire rej a c1 = Some c"
    unfolding exec_snoc by blast
  from snoc.IH[OF e] f show ?case
    by (rule worker_trace_fire)
qed

lemma Worker_put_in_sched:
  "(Worker_put \<in> set (worker_acts sched)) = (Worker_put \<in> set sched)"
  by (simp add: worker_acts_def)

lemma gets_fire:
  assumes "fire rej a c = Some c'"
  shows "gets c' = gets c \<or> (a = End_step \<and> done_chan c \<noteq> [] \<and> gets c' = gets c + 1)"
  using assms
proof (cases rule: fire_cases)
  case api
  then show ?thesis by (simp add: frame_def)
next
  case (end_step pc pc' c1)
  then show ?thesis
    by (cases pc) (auto split: if_splits list.splits)
qed simp_all

lemma got_after_put_reachable:
  "exec rej sched (Experiment_init name capture_io out0 err0 b0 b1) = Some c
     \<Longrightarrow> gets c = 0 \<or> got_after_put sched"
proof (induction sched arbitrary: c rule: rev_induct)
  case Nil
  then show ?case
    by (auto simp: init_defs)
next
  case (snoc a sched)
  from snoc.prems obtain c1
    where e: "exec rej sched (Experiment_init name capture_io out0 err0 b0 b1) = Some c1"
      and f: "fire rej a c1 = Some c"
    unfolding exec_snoc by blast
  from snoc.IH[OF e] have ih: "gets c1 = 0 \<or> got_after_put sched" .
  have ext: "got_after_put (sched @ [a])" if "got_after_put sched"
  proof -
    from that obtain pre post where "sched = pre @ Worker_put # post" and "End_step \<in> set post"
      unfolding got_after_put_def by blast
    then have "sched @ [a] = pre @ Worker_put # (post @ [a]) \<and> End_step \<in> set (post @ [a])"
      by simp
    then show ?thesis
      unfolding got_after_put_def by blast
  qed
  from gets_fire[OF f] show ?case
  proof
    assume "gets c = gets c1"
    with ih ext show ?thesis by auto
  next
    assume g: "a = End_step \<and> done_chan c1 \<noteq> [] \<and> gets c = gets c1 + 1"
    have "chan_inv c1"
      using e by (rule chan_inv_reachable)
    with g have "worker c1 = W_finished"
      by (auto simp: chan_inv_def split: if_splits)
    moreover have "worker_trace sched c1"
      using e by (rule worker_trace_reachable)
    ultimately have "Worker_put \<in> set (worker_acts sched)"
      by (auto simp: worker_trace_def)
    then have "Worker_put \<in> set sched"
      by (simp only: Worker_put_in_sched)
    then obtain pre post where "sched = pre @ Worker_put # post"
      by (auto dest: split_list)
    then have "sched @ [a] = pre @ Worker_put # (post @ [End_step]) \<and> End_step \<in> set (post @ [End_step])"
      using g by simp
    then have "got_after_put (sched @ [a])"
      unfolding got_after_put_def by blast
    then show ?thesis by simp
  qed
qed

text \<open>
  Claim C1.  In every configuration that a schedule reaches from the constructor:
  if \<^verbatim>\<open>end\<close> has returned (the flag is set and the caller is outside \<^verbatim>\<open>end\<close>),
  then the worker has finished, and exactly one token has been put and exactly one
  taken; at no time has more than one token been put, nor more taken than put; a
  token has been put exactly when the worker has finished; and a caller at the
  \<^verbatim>\<open>get\<close> cannot take a step while the queue is empty, there being no timeout.
  In the schedule itself: when the worker has finished, its steps were, in this
  order, the start time, the return of the run loop, the end time and one
  \<^verbatim>\<open>put\<close>, so the token was produced once and after the run loop returned; as
  long as the worker has not finished the schedule contains no \<^verbatim>\<open>put\<close>; and
  when \<^verbatim>\<open>end\<close> has returned, the \<^verbatim>\<open>put\<close> is followed in the schedule by the step
  of \<^verbatim>\<open>end\<close> that took the token.
\<close>

theorem end_returns_after_token:
  assumes "exec rej sched (Experiment_init name capture_io out0 err0 b0 b1) = Some c"
  shows "(ended c \<and> caller c = Idle \<longrightarrow> worker c = W_finished \<and> puts c = 1 \<and> gets c = 1)
       \<and> puts c \<le> 1 \<and> gets c \<le> puts c
       \<and> (puts c = 1 \<longleftrightarrow> worker c = W_finished)
       \<and> (caller c = In_end E_get \<and> done_chan c = [] \<longrightarrow> fire rej End_step c = None)
       \<and> (worker c = W_finished \<longrightarrow>
            (\<exists>t u. worker_acts sched =
               [Worker_set_start_time t, Run_returns, Worker_set_end_time u, Worker_put]))
       \<and> (worker c \<noteq> W_finished \<longrightarrow> Worker_put \<notin> set sched)
       \<and> (ended c \<and> caller c = Idle \<longrightarrow> got_after_put sched)"
proof -
  have inv: "chan_inv c"
    using assms by (rule chan_inv_reachable)
  have tr: "worker_trace sched c"
    using assms by (rule worker_trace_reachable)
  have gp: "gets c = 0 \<or> got_after_put sched"
    using assms by (rule got_after_put_reachable)
  have blocked: "caller c = In_end E_get \<and> done_chan c = [] \<longrightarrow> fire rej End_step c = None"
    by simp
  have le: "gets c \<le> puts c"
    using inv unfolding chan_inv_def by linarith
  have p: "puts c = (if worker c = W_finished then 1 else 0)"
    using inv by (simp add: chan_inv_def)
  have g: "ended c \<and> caller c = Idle \<longrightarrow> gets c = 1"
    using inv by (simp add: chan_inv_def)
  from g le p have r: "ended c \<and> caller c = Idle \<longrightarrow> worker c = W_finished \<and> puts c = 1 \<and> gets c = 1"
    by (auto split: if_splits)
  have fin: "worker c = W_finished \<longrightarrow>
      (\<exists>t u. worker_acts sched =
         [Worker_set_start_time t, Run_returns, Worker_set_end_time u, Worker_put])"
    using tr by (auto simp: worker_trace_def)
  have "worker c \<noteq> W_finished \<longrightarrow> Worker_put \<notin> set (worker_acts sched)"
    using tr by (cases "worker c") (auto simp: worker_trace_def)
  then have nput: "worker c \<noteq> W_finished \<longrightarrow> Worker_put \<notin> set sched"
    by (simp only: Worker_put_in_sched)
  have after: "ended c \<and> caller c = Idle \<longrightarrow> got_after_put sched"
    using g gp by auto
  from r blocked le p fin nput after show ?thesis
    by (auto split: if_splits)
qed

theorem end_returns_after_token_witness:
  "exec accept_all full_run (Experiment_init ''demo'' True 1 2 3 4) = Some demo_ended
   \<and> ended demo_ended \<and> caller demo_ended = Idle
   \<and> worker demo_ended = W_finished \<and> puts demo_ended = 1 \<and> gets demo_ended = 1
   \<and> worker_acts full_run =
       [Worker_set_start_time 10, Run_returns, Worker_set_end_time 20, Worker_put]
   \<and> got_after_put full_run"
proof -
  have e: "exec accept_all full_run (Experiment_init ''demo'' True 1 2 3 4) = Some demo_ended"
    using full_run_demo[of accept_all] by (simp add: demo_def)
  have h: "ended demo_ended" "caller demo_ended = Idle"
    by (simp_all add: demo_ended_def)
  have w: "worker_acts full_run =
       [Worker_set_start_time 10, Run_returns, Worker_set_end_time 20, Worker_put]"
    by (simp add: worker_acts_def full_run_def)
  from end_returns_after_token[OF e] e h w show ?thesis
    by simp
qed

text \<open>
  Claim C2.  Once \<^verbatim>\<open>end\<close> has returned, invoking it again takes one statement, the
  check of the flag, and leaves the configuration exactly as it was: streams,
  runner, queue and counters included, and with the queue empty it still returns.
  A schedule followed by such a second invocation ends where the schedule ends.
\<close>

theorem second_end_is_noop:
  assumes "exec rej sched c0 = Some c" and "ended c" and "caller c = Idle"
  shows "exec rej [Call_end, End_step] c = Some c
       \<and> exec rej (sched @ [Call_end, End_step]) c0 = exec rej sched c0"
proof -
  have "c\<lparr>caller := Idle\<rparr> = c"
    using assms(3) by (metis config.surjective config.update_convs(14))
  then have 1: "exec rej [Call_end, End_step] c = Some c"
    using assms(2,3) by simp
  with assms(1) show ?thesis
    by (simp add: exec_append)
qed

theorem second_end_is_noop_witness:
  "exec accept_all full_run demo = Some demo_ended \<and> ended demo_ended
   \<and> caller demo_ended = Idle \<and> done_chan demo_ended = []
   \<and> exec accept_all [Call_end, End_step] demo_ended = Some demo_ended
   \<and> exec accept_all (full_run @ [Call_end, End_step]) demo = Some demo_ended"
proof -
  have e: "exec accept_all full_run demo = Some demo_ended"
    by (rule full_run_demo)
  have h: "ended demo_ended" "caller demo_ended = Idle" "done_chan demo_ended = []"
    by (simp_all add: demo_ended_def)
  from second_end_is_noop[OF e h(1,2)] e h show ?thesis
    by simp
qed

text \<open>
  Claim C4, as stated, fails: right after \<^verbatim>\<open>end\<close> is invoked on a fresh
  experiment the caller stands at the check of the flag and the lock is free, and
  the check is carried out with the lock still free.
\<close>

theorem end_check_not_under_lock_counterexample:
  "map_option caller (exec accept_all [Call_end] demo) = Some (In_end E_check)
   \<and> map_option lock (exec accept_all [Call_end] demo) = Some False
   \<and> map_option caller (exec accept_all [Call_end, End_step] demo) = Some (In_end E_set_ended)
   \<and> map_option lock (exec accept_all [Call_end, End_step] demo) = Some False"
  by (simp add: demo_def init_defs)

text \<open>
  Claim C4, amended.  The check of the flag is the first statement of \<^verbatim>\<open>end\<close> and
  changes nothing, so no side effect precedes it; it is made without the lock, and
  so is the setting of the flag that follows it.  The lock is held exactly while the
  caller is between acquiring and releasing it, that is, during the stream
  restoration and the two writes to the runner.
\<close>

theorem end_check_first_lock_later:
  assumes "exec rej sched (Experiment_init name capture_io out0 err0 b0 b1) = Some c"
  shows "(caller c = Idle \<longrightarrow> fire rej Call_end c = Some (c\<lparr>caller := In_end E_check\<rparr>))
       \<and> (caller c = In_end E_check \<longrightarrow>
            \<not> lock c \<and> end_step E_check c = Some (if ended c then Idle else In_end E_set_ended, c))
       \<and> (caller c = In_end E_set_ended \<longrightarrow> \<not> lock c)
       \<and> (lock c \<longleftrightarrow> holds_lock (caller c))"
proof -
  have "lock c \<longleftrightarrow> holds_lock (caller c)"
  proof (rule exec_invariant[where P = "\<lambda>c. lock c \<longleftrightarrow> holds_lock (caller c)", OF _ _ assms])
    show "lock (Experiment_init name capture_io out0 err0 b0 b1)
        \<longleftrightarrow> holds_lock (caller (Experiment_init name capture_io out0 err0 b0 b1))"
      by (simp add: init_defs holds_lock_def)
  next
    fix a c c'
    assume inv: "lock c \<longleftrightarrow> holds_lock (caller c)" and f: "fire rej a c = Some c'"
    from f show "lock c' \<longleftrightarrow> holds_lock (caller c')"
    proof (cases rule: fire_cases)
      case api
      with inv show ?thesis by (simp add: frame_def)
    next
      case (end_step pc pc' c1)
      with inv show ?thesis
        by (cases pc) (auto simp: holds_lock_def split: if_splits list.splits)
    qed (use inv in \<open>simp_all add: holds_lock_def\<close>)
  qed
  then show ?thesis
    by (auto simp: holds_lock_def)
qed

theorem end_check_first_lock_later_witness:
  "exec accept_all [Call_end] (Experiment_init ''demo'' True 1 2 3 4) = Some (demo\<lparr>caller := In_end E_check\<rparr>)
   \<and> caller (demo\<lparr>caller := In_end E_check\<rparr>) = In_end E_check
   \<and> \<not> lock (demo\<lparr>caller := In_end E_check\<rparr>)
   \<and> end_step E_check (demo\<lparr>caller := In_end E_check\<rparr>) =
       Some (In_end E_set_ended, demo\<lparr>caller := In_end E_check\<rparr>)"
proof -
  have e: "exec accept_all [Call_end] (Experiment_init ''demo'' True 1 2 3 4) = Some (demo\<lparr>caller := In_end E_check\<rparr>)"
    by (simp add: demo_def init_defs)
  have h: "caller (demo\<lparr>caller := In_end E_check\<rparr>) = In_end E_check"
    "\<not> ended (demo\<lparr>caller := In_end E_check\<rparr>)"
    by (simp_all add: demo_def init_defs)
  from end_check_first_lock_later[OF e] e h show ?thesis
    by simp
qed

section \<open>Stream capture\<close>

text \<open>
  Claim C7.  With \<^verbatim>\<open>capture_io\<close> false the constructor leaves \<^verbatim>\<open>sys.stdout\<close> and
  \<^verbatim>\<open>sys.stderr\<close> as it found them, they are still the same in every configuration
  reached afterwards (after \<^verbatim>\<open>end\<close> in particular), and the restoring assignment
  of \<^verbatim>\<open>end\<close> changes nothing.
\<close>

theorem no_capture_streams_untouched:
  assumes "exec rej sched (Experiment_init name False out0 err0 b0 b1) = Some c"
  shows "sys_stdout (Experiment_init name False out0 err0 b0 b1) = out0
       \<and> sys_stderr (Experiment_init name False out0 err0 b0 b1) = err0
       \<and> sys_stdout c = out0 \<and> sys_stderr c = err0
       \<and> end_step E_restore c = Some (In_end E_exit_cleanly, c)"
proof -
  let ?P = "\<lambda>c. sys_stdout c = out0 \<and> sys_stderr c = err0 \<and> old_out c = out0 \<and> old_err c = err0"
  have inv: "?P c"
  proof (rule exec_invariant[where P = ?P, OF _ _ assms])
    show "?P (Experiment_init name False out0 err0 b0 b1)"
      by (simp add: init_defs)
  next
    fix a c c'
    assume inv: "?P c" and f: "fire rej a c = Some c'"
    from f show "?P c'"
    proof (cases rule: fire_cases)
      case api
      with inv show ?thesis by (simp add: frame_def)
    next
      case (end_step pc pc' c1)
      with inv show ?thesis
        by (cases pc) (auto split: if_splits list.splits)
    qed (use inv in simp_all)
  qed
  then have "c\<lparr>sys_stdout := old_out c, sys_stderr := old_err c\<rparr> = c"
    by (metis config.surjective config.update_convs(1,2))
  with inv show ?thesis
    by (simp add: init_defs)
qed

theorem no_capture_streams_untouched_witness:
  "exec accept_all full_run (Experiment_init ''demo'' False 1 2 3 4) = Some demo_ended
   \<and> sys_stdout (Experiment_init ''demo'' False 1 2 3 4) = 1
   \<and> sys_stderr (Experiment_init ''demo'' False 1 2 3 4) = 2
   \<and> sys_stdout demo_ended = 1 \<and> sys_stderr demo_ended = 2
   \<and> end_step E_restore demo_ended = Some (In_end E_exit_cleanly, demo_ended)"
proof -
  have e: "exec accept_all full_run (Experiment_init ''demo'' False 1 2 3 4) = Some demo_ended"
    using full_run_demo_plain[of accept_all] by (simp add: demo_plain_def)
  from no_capture_streams_untouched[OF e] e show ?thesis
    by simp
qed

section \<open>The Runner Signal\<close>

text \<open>
  Claim C10.  In every configuration that a schedule reaches from the constructor,
  \<^verbatim>\<open>exit_cleanly\<close> is true, so \<^verbatim>\<open>is_done\<close> returns \<^verbatim>\<open>(True, done)\<close>.
\<close>

theorem exit_cleanly_always_true:
  assumes "exec rej sched (Experiment_init name capture_io out0 err0 b0 b1) = Some c"
  shows "exit_cleanly (runner c) \<and> is_done (runner c) = (True, r_done (runner c))"
proof -
  have "exit_cleanly (runner c)"
  proof (rule exec_invariant[where P = "\<lambda>c. exit_cleanly (runner c)", OF _ _ assms])
    show "exit_cleanly (runner (Experiment_init name capture_io out0 err0 b0 b1))"
      by (simp add: init_defs)
  next
    fix a c c'
    assume inv: "exit_cleanly (runner c)" and f: "fire rej a c = Some c'"
    from f show "exit_cleanly (runner c')"
    proof (cases rule: fire_cases)
      case api
      with inv show ?thesis by (simp add: frame_def)
    next
      case (end_step pc pc' c1)
      with inv show ?thesis
        by (cases pc) (auto split: if_splits list.splits)
    qed (use inv in \<open>simp_all add: set_start_time_def set_end_time_def\<close>)
  qed
  then show ?thesis
    by (simp add: is_done_def)
qed

theorem exit_cleanly_always_true_witness:
  "exec accept_all full_run (Experiment_init ''demo'' True 1 2 3 4) = Some demo_ended
   \<and> exit_cleanly (runner demo_ended) \<and> is_done (runner demo_ended) = (True, True)"
proof -
  have e: "exec accept_all full_run (Experiment_init ''demo'' True 1 2 3 4) = Some demo_ended"
    using full_run_demo[of accept_all] by (simp add: demo_def)
  have "r_done (runner demo_ended)"
    by (simp add: demo_ended_def)
  with exit_cleanly_always_true[OF e] e show ?thesis
    by simp
qed

lemma readings_Cons:
  "readings (a # as) =
     (case a of Worker_set_start_time t \<Rightarrow> [t] | Worker_set_end_time t \<Rightarrow> [t] | _ \<Rightarrow> []) @
     readings as"
  by (cases a) simp_all

lemma readings_tail:
  "set (readings as) \<subseteq> set (readings (a # as))"
  "sorted (readings (a # as)) \<Longrightarrow> sorted (readings as)"
  by (simp_all add: readings_Cons sorted_append)

lemma time_inv_weaken:
  assumes "time_inv c (a # as)" and "worker c' = worker c"
    and "start_time (runner c') = start_time (runner c)"
    and "end_time (runner c') = end_time (runner c)"
  shows "time_inv c' as"
  using assms readings_tail(1)[of as a] unfolding time_inv_def by auto

lemma time_inv_fire:
  assumes "time_inv c (a # as)" and "sorted (readings (a # as))" and "fire rej a c = Some c'"
  shows "time_inv c' as"
  using assms(3)
proof (cases rule: fire_cases)
  case api
  then show ?thesis
    by (intro time_inv_weaken[OF assms(1)]) (simp_all add: frame_def)
next
  case call_end
  then show ?thesis
    by (intro time_inv_weaken[OF assms(1)]) simp_all
next
  case (end_step pc pc' c1)
  then show ?thesis
    by (intro time_inv_weaken[OF assms(1)]) (simp_all add: end_step_frame)
next
  case (set_start now)
  with assms(1,2) show ?thesis
    by (auto simp: time_inv_def set_start_time_def)
next
  case run_returns
  with assms(1) show ?thesis
    by (auto simp: time_inv_def)
next
  case run_raises
  with assms(1) show ?thesis
    by (auto simp: time_inv_def)
next
  case (set_end now)
  with assms(1) show ?thesis
    by (auto simp: time_inv_def set_end_time_def)
next
  case put
  with assms(1) show ?thesis
    by (auto simp: time_inv_def)
qed

lemma time_inv_exec:
  "time_inv c0 sched \<Longrightarrow> sorted (readings sched) \<Longrightarrow> exec rej sched c0 = Some c
     \<Longrightarrow> time_inv c []"
proof (induction sched arbitrary: c0)
  case Nil
  then show ?case by simp
next
  case (Cons a sched)
  from Cons.prems(3) obtain c1 where f: "fire rej a c0 = Some c1"
    and e: "exec rej sched c1 = Some c"
    by (auto split: option.splits)
  have "time_inv c1 sched"
    using Cons.prems(1,2) f by (rule time_inv_fire)
  moreover have "sorted (readings sched)"
    using Cons.prems(2) by (rule readings_tail(2))
  ultimately show ?case
    using e by (rule Cons.IH)
qed

text \<open>
  Claim C8, as stated, fails: \<^verbatim>\<open>datetime.now()\<close> reads the local wall clock, and
  when that clock is set back while the run loop executes (here from 10 to 5), the
  worker completes with a start time later than its end time.
\<close>

theorem start_le_end_counterexample:
  "map_option worker (exec accept_all clock_set_back demo) = Some W_finished
   \<and> map_option (get_start_and_end_time \<circ> runner) (exec accept_all clock_set_back demo) =
       Some (Some 10, Some 5)"
  by (simp add: clock_set_back_def demo_def init_defs set_start_time_def set_end_time_def
      get_start_and_end_time_def)

text \<open>
  Claim C8, amended.  A worker that has finished has written both timestamps; the
  end time is set only after the run loop has returned; when it is set, the first
  three steps of the worker in the schedule were the reading of the start time,
  the return of the run loop and the reading of the end time, and the two
  timestamps are these two readings.  Along a schedule whose clock readings never
  decrease, whenever both timestamps are set the start time is at most the end
  time.
\<close>

theorem start_le_end_for_ordered_readings:
  assumes "exec rej sched (Experiment_init name capture_io out0 err0 b0 b1) = Some c"
  shows "(worker c = W_finished \<longrightarrow> start_time (runner c) \<noteq> None \<and> end_time (runner c) \<noteq> None)
       \<and> (sorted (readings sched) \<longrightarrow>
            (\<forall>a b. get_start_and_end_time (runner c) = (Some a, Some b) \<longrightarrow> a \<le> b))
       \<and> (end_time (runner c) \<noteq> None \<longrightarrow> worker c = W_put \<or> worker c = W_finished)
       \<and> (end_time (runner c) \<noteq> None \<longrightarrow>
            (\<exists>t u. get_start_and_end_time (runner c) = (Some t, Some u) \<and>
               take 3 (worker_acts sched) =
                 [Worker_set_start_time t, Run_returns, Worker_set_end_time u]))"
proof -
  have tr: "worker_trace sched c"
    using assms by (rule worker_trace_reachable)
  have 1: "worker c = W_finished \<longrightarrow> start_time (runner c) \<noteq> None \<and> end_time (runner c) \<noteq> None"
    using tr by (auto simp: worker_trace_def)
  have 2: "\<forall>a b. get_start_and_end_time (runner c) = (Some a, Some b) \<longrightarrow> a \<le> b"
    if s: "sorted (readings sched)"
  proof -
    have "time_inv (Experiment_init name capture_io out0 err0 b0 b1) sched"
      by (simp add: time_inv_def init_defs)
    then have "time_inv c []"
      using s assms by (rule time_inv_exec)
    then show ?thesis
      unfolding time_inv_def get_start_and_end_time_def
      by (cases "worker c") auto
  qed
  have 3: "end_time (runner c) \<noteq> None \<longrightarrow> worker c = W_put \<or> worker c = W_finished"
    using tr by (cases "worker c") (auto simp: worker_trace_def)
  have 4: "end_time (runner c) \<noteq> None \<longrightarrow>
      (\<exists>t u. get_start_and_end_time (runner c) = (Some t, Some u) \<and>
         take 3 (worker_acts sched) =
           [Worker_set_start_time t, Run_returns, Worker_set_end_time u])"
    using tr
    by (cases "worker c") (auto simp: worker_trace_def get_start_and_end_time_def)
  from 1 2 3 4 show ?thesis
    by blast
qed

theorem start_le_end_for_ordered_readings_witness:
  "exec accept_all full_run (Experiment_init ''demo'' True 1 2 3 4) = Some demo_ended
   \<and> sorted (readings full_run) \<and> worker demo_ended = W_finished
   \<and> get_start_and_end_time (runner demo_ended) = (Some 10, Some 20) \<and> (10::int) \<le> 20
   \<and> take 3 (worker_acts full_run) =
       [Worker_set_start_time 10, Run_returns, Worker_set_end_time 20]"
proof -
  have e: "exec accept_all full_run (Experiment_init ''demo'' True 1 2 3 4) = Some demo_ended"
    using full_run_demo[of accept_all] by (simp add: demo_def)
  have s: "sorted (readings full_run)"
    by (simp add: full_run_def)
  have h: "worker demo_ended = W_finished"
    "get_start_and_end_time (runner demo_ended) = (Some 10, Some 20)"
    by (simp_all add: demo_ended_def get_start_and_end_time_def)
  have w: "take 3 (worker_acts full_run) =
       [Worker_set_start_time 10, Run_returns, Worker_set_end_time 20]"
    by (simp add: worker_acts_def full_run_def)
  from start_le_end_for_ordered_readings[OF e] e s h w show ?thesis
    by simp
qed

end
